theory Spec2Isabelle
  imports Main "HOL-Library.Sublist" "HOL-Library.Monad_Syntax"
begin

section \<open>Byte buffers and C strings\<close>

text \<open>
  A \<open>std::string\<close> is a list of bytes. A \<open>char *\<close> into such a buffer is modelled by the
  bytes from the pointer to the end of the buffer; the C library functions applied to it
  (\<open>strstr\<close>, \<open>strlen\<close>, \<open>strchr\<close>, \<open>strncmp\<close>) see only the bytes in front of the first
  NUL byte (\<open>c_str\<close>), since \<open>std::string::data()\<close> is NUL terminated.
\<close>

abbreviation NUL :: char where
  "NUL \<equiv> CHR 0x00"

definition c_str :: "string \<Rightarrow> string" where
  "c_str p = takeWhile (\<lambda>c. c \<noteq> NUL) p"

section \<open>The markup wrapper: \<open>try_to_xslt_open_csv\<close>\<close>

text \<open>The loop that counts the ampersand characters of the buffer.\<close>

fun count_amp :: "string \<Rightarrow> nat" where
  "count_amp [] = 0"
| "count_amp (c # cs) = (if c = CHR ''&'' then Suc (count_amp cs) else count_amp cs)"

text \<open>
  The buffer being filled is a pair of the bytes and the write cursor \<open>ptr_out\<close>, an offset
  from \<open>mem.data()\<close>. \<open>put\<close> is the statement \<open>*--ptr_out = c\<close>; \<open>put_tag\<close> is
  \<open>ptr_out -= tag_name_size; memcpy(ptr_out, tag, tag_name_size)\<close>. A write in front of the
  start of the buffer is the value \<open>None\<close>.
\<close>

type_synonym wbuf = "string \<times> nat"

fun put :: "wbuf \<Rightarrow> char \<Rightarrow> wbuf option" where
  "put (b, 0) c = None"
| "put (b, Suc p) c = Some (b[p := c], p)"

definition memcpy :: "string \<Rightarrow> nat \<Rightarrow> string \<Rightarrow> string" where
  "memcpy b off src = take off b @ src @ drop (off + length src) b"

definition put_tag :: "wbuf \<Rightarrow> string \<Rightarrow> wbuf option" where
  "put_tag s tag =
     (case s of (b, p) \<Rightarrow>
        if length tag \<le> p then Some (memcpy b (p - length tag) tag, p - length tag)
        else None)"

text \<open>
  The backward fill \<open>while (--ptr_in >= mem.data())\<close>: the first argument is \<open>ptr_in\<close>
  before the decrement, as an offset. The byte at \<open>ptr_in\<close> is read once for the
  comparison and once more for the copy, after the four bytes of the entity were written.
\<close>

fun fill :: "nat \<Rightarrow> wbuf \<Rightarrow> wbuf option" where
  "fill 0 s = Some s"
| "fill (Suc i) s =
     (if fst s ! i = CHR ''&'' then
        do {
          s1 \<leftarrow> put s (CHR '';'');
          s2 \<leftarrow> put s1 (CHR ''p'');
          s3 \<leftarrow> put s2 (CHR ''m'');
          s4 \<leftarrow> put s3 (CHR ''a'');
          s5 \<leftarrow> put s4 (fst s4 ! i);
          fill i s5
        }
      else
        do {
          s1 \<leftarrow> put s (fst s ! i);
          fill i s1
        })"

text \<open>
  The part of \<open>try_to_xslt_open_csv\<close> after the buffer is known to be non-empty: resize,
  end tag, backward fill, start tag. The result is the buffer and the final write cursor.
\<close>

definition xslt_wrap :: "string \<Rightarrow> string \<Rightarrow> wbuf option" where
  "xslt_wrap mem tag =
     (let amp = count_amp mem;
          tag_name_size = length tag;
          old_size = length mem;
          b = mem @ replicate (tag_name_size * 2 + 5 + amp * 4) NUL
      in do {
           s1 \<leftarrow> put (b, length b) (CHR ''>'');
           s2 \<leftarrow> put_tag s1 tag;
           s3 \<leftarrow> put s2 (CHR ''/'');
           s4 \<leftarrow> put s3 (CHR ''<'');
           s5 \<leftarrow> fill old_size s4;
           s6 \<leftarrow> put s5 (CHR ''>'');
           s7 \<leftarrow> put_tag s6 tag;
           put s7 (CHR ''<'')
         })"

text \<open>
  Diagnostics sent to the logging sink. \<open>report_error\<close> logs and returns \<open>-1\<close>;
  \<open>report_info\<close> only logs. In the decoders below a failing return is the value
  \<open>Inl d\<close>, with \<open>d\<close> the diagnostic that goes with it; \<open>Write_outside_buffer\<close> and
  \<open>Null_pointer_read\<close> stand for the two memory faults the code can run into.
\<close>

datatype diag =
    Failed_to_read
  | Ptr_out_off_by nat
  | Write_outside_buffer
  | No_leading_delimiter_found
  | More_DAN_fields_than_expected
  | No_new_line_found
  | Failed_to_find_start_of_ZDP
  | No_dive_profile_found
  | Failed_to_find_end_of_ZDP
  | Failed_to_detect_NL
  | Expected_ZDH_header_not_found
  | Expected_ZDT_trailer_not_found
  | Xslt_open_failed
  | Null_pointer_read
  | Read_outside_buffer
  | No_empty_lines
  | Indeterminate_value_read

text \<open>
  \<open>try_to_xslt_open_csv\<close>. The first argument is what \<open>readfile(filename)\<close> gives: \<open>None\<close>
  when the file cannot be read. The result is the return value, the buffer \<open>mem\<close> afterwards
  and the diagnostics; \<open>None\<close> is a write outside the buffer.
\<close>

definition try_to_xslt_open_csv ::
  "string option \<Rightarrow> string \<Rightarrow> string \<Rightarrow> (int \<times> string \<times> diag list) option" where
  "try_to_xslt_open_csv file mem tag =
     (if mem = [] then
        (case file of
           None \<Rightarrow> Some (-1, mem, [Failed_to_read])
         | Some mem2 \<Rightarrow>
             if mem2 = [] then Some (0, mem, [])
             else map_option
                    (\<lambda>(b, ptr_out). (0, b, if ptr_out \<noteq> 0 then [Ptr_out_off_by ptr_out] else []))
                    (xslt_wrap mem2 tag))
      else map_option
             (\<lambda>(b, ptr_out). (0, b, if ptr_out \<noteq> 0 then [Ptr_out_off_by ptr_out] else []))
             (xslt_wrap mem tag))"

text \<open>The escaping the wrapper is meant to perform, written as a function on strings.\<close>

definition escape_amp :: "string \<Rightarrow> string" where
  "escape_amp s = concat (map (\<lambda>c. if c = CHR ''&'' then ''&amp;'' else [c]) s)"

definition wrapped :: "string \<Rightarrow> string \<Rightarrow> string" where
  "wrapped tag s = ''<'' @ tag @ ''>'' @ escape_amp s @ ''</'' @ tag @ ''>''"

section \<open>Correctness of the markup wrapper\<close>

lemma put_append:
  "X \<noteq> [] \<Longrightarrow> put (X @ Y, length X) c = Some (butlast X @ c # Y, length X - 1)"
  by (cases X rule: rev_cases) (simp_all add: list_update_append)

lemma count_amp_append: "count_amp (xs @ ys) = count_amp xs + count_amp ys"
  by (induction xs) simp_all

lemma count_amp_filter: "count_amp s = length (filter (\<lambda>c. c = CHR ''&'') s)"
  by (induction s) simp_all

lemma escape_amp_snoc:
  "escape_amp (xs @ [c]) = escape_amp xs @ (if c = CHR ''&'' then ''&amp;'' else [c])"
  by (simp add: escape_amp_def)

lemma length_escape_amp: "length (escape_amp s) = length s + 4 * count_amp s"
  by (induction s) (simp_all add: escape_amp_def)

lemma split_last4:
  assumes "4 \<le> length (mid :: 'a list)"
  obtains m w x y z where "mid = m @ [w, x, y, z]"
proof -
  define m where "m = take (length mid - 4) mid"
  define q where "q = drop (length mid - 4) mid"
  have "length q = 4" using assms by (simp add: q_def)
  then obtain w x y z where "q = [w, x, y, z]"
    by (auto simp: length_Suc_conv numeral_eq_Suc)
  moreover have "mid = m @ q" by (simp add: m_def q_def)
  ultimately show ?thesis using that by blast
qed

lemma fill_step_plain:
  assumes "c \<noteq> CHR ''&''"
  shows "fill (Suc (length pre)) (pre @ [c] @ mid @ Y, Suc (length pre + length mid)) =
         fill (length pre) (pre @ butlast (c # mid) @ c # Y, length pre + length mid)"
proof -
  have rd: "(pre @ [c] @ mid @ Y) ! length pre = c" by (simp add: nth_append)
  have "put ((pre @ [c] @ mid) @ Y, length (pre @ [c] @ mid)) c =
        Some (butlast (pre @ [c] @ mid) @ c # Y, length (pre @ [c] @ mid) - 1)"
    by (rule put_append) simp
  then have "put (pre @ [c] @ mid @ Y, Suc (length pre + length mid)) c =
        Some (pre @ butlast (c # mid) @ c # Y, length pre + length mid)"
    by (simp add: butlast_append)
  then show ?thesis using assms rd by simp
qed

lemma fill_step_amp:
  "fill (Suc (length pre)) (pre @ [CHR ''&''] @ (m @ [w, x, y, z]) @ Y,
                            Suc (length pre + length (m @ [w, x, y, z]))) =
   fill (length pre) (pre @ butlast (CHR ''&'' # m) @ ''&amp;'' @ Y, length pre + length m)"
proof -
  let ?a = "CHR ''&''"
  let ?X = "pre @ [?a] @ m"
  have e0: "pre @ [?a] @ (m @ [w, x, y, z]) @ Y = (?X @ [w, x, y]) @ [z] @ Y" by simp
  have l0: "Suc (length pre + length (m @ [w, x, y, z])) = Suc (length (?X @ [w, x, y]))" by simp
  have p1: "put (pre @ [?a] @ (m @ [w, x, y, z]) @ Y, Suc (length pre + length (m @ [w, x, y, z]))) (CHR '';'')
            = Some ((?X @ [w, x]) @ [y] @ '';'' @ Y, Suc (length (?X @ [w, x])))"
    unfolding e0 l0 by (simp add: list_update_append)
  have p2: "put ((?X @ [w, x]) @ [y] @ '';'' @ Y, Suc (length (?X @ [w, x]))) (CHR ''p'')
            = Some ((?X @ [w]) @ [x] @ ''p;'' @ Y, Suc (length (?X @ [w])))"
    by (simp add: list_update_append)
  have p3: "put ((?X @ [w]) @ [x] @ ''p;'' @ Y, Suc (length (?X @ [w]))) (CHR ''m'')
            = Some (?X @ [w] @ ''mp;'' @ Y, Suc (length ?X))"
    by (simp add: list_update_append)
  have p4: "put (?X @ [w] @ ''mp;'' @ Y, Suc (length ?X)) (CHR ''a'')
            = Some (?X @ ''amp;'' @ Y, length ?X)"
    by (simp add: list_update_append)
  have rd0: "fst (pre @ [?a] @ (m @ [w, x, y, z]) @ Y, Suc (length pre + length (m @ [w, x, y, z]))) ! length pre = ?a"
    by (simp add: nth_append)
  have rd4: "fst (?X @ ''amp;'' @ Y, length ?X) ! length pre = ?a"
    by (simp add: nth_append)
  have "put (?X @ (''amp;'' @ Y), length ?X) ?a = Some (butlast ?X @ ?a # (''amp;'' @ Y), length ?X - 1)"
    by (rule put_append) simp
  then have p5: "put (?X @ ''amp;'' @ Y, length ?X) ?a
            = Some (pre @ butlast (?a # m) @ ''&amp;'' @ Y, length pre + length m)"
    by (simp add: butlast_append)
  show ?thesis
    unfolding fill.simps using rd0 rd4 p1 p2 p3 p4 p5 by simp
qed

lemma fill_inv:
  "4 * count_amp pre \<le> length mid \<Longrightarrow>
   fill (length pre) (pre @ mid @ Y, length pre + length mid) =
     Some (take (length mid - 4 * count_amp pre) (pre @ mid) @ escape_amp pre @ Y,
           length mid - 4 * count_amp pre)"
proof (induction pre arbitrary: mid Y rule: rev_induct)
  case Nil
  then show ?case by (simp add: escape_amp_def)
next
  case (snoc c pre)
  show ?case
  proof (cases "c = CHR ''&''")
    case False
    define mid' where "mid' = butlast (c # mid)"
    define k where "k = length mid - 4 * count_amp pre"
    have len: "length mid' = length mid" by (simp add: mid'_def)
    have le: "4 * count_amp pre \<le> length mid'"
      using snoc.prems False by (simp add: count_amp_append len)
    have tk: "take k (pre @ mid') = take k ((pre @ [c]) @ mid)"
    proof -
      have "pre @ mid' = butlast ((pre @ [c]) @ mid)" by (simp add: butlast_append mid'_def)
      moreover have "k < length ((pre @ [c]) @ mid)" by (simp add: k_def)
      ultimately show ?thesis by (simp only: take_butlast)
    qed
    have "fill (length (pre @ [c])) ((pre @ [c]) @ mid @ Y, length (pre @ [c]) + length mid) =
          fill (length pre) (pre @ mid' @ c # Y, length pre + length mid')"
      using fill_step_plain [OF False, of pre mid Y] by (simp add: mid'_def)
    also have "\<dots> = Some (take (length mid' - 4 * count_amp pre) (pre @ mid') @ escape_amp pre @ c # Y,
                          length mid' - 4 * count_amp pre)"
      by (rule snoc.IH [OF le])
    also have "\<dots> = Some (take k (pre @ mid') @ escape_amp pre @ c # Y, k)"
      by (simp only: len k_def)
    also have "\<dots> = Some (take k ((pre @ [c]) @ mid) @ escape_amp (pre @ [c]) @ Y, k)"
      unfolding tk escape_amp_snoc using False by simp
    finally show ?thesis
      using False by (simp add: count_amp_append k_def)
  next
    case True
    have "4 \<le> length mid" using snoc.prems True by (simp add: count_amp_append)
    then obtain m w x y z where mid: "mid = m @ [w, x, y, z]" by (rule split_last4)
    define mid' where "mid' = butlast (c # m)"
    define k where "k = length m - 4 * count_amp pre"
    have len: "length mid' = length m" by (simp add: mid'_def)
    have le: "4 * count_amp pre \<le> length mid'"
      using snoc.prems True mid by (simp add: count_amp_append len)
    have tk: "take k (pre @ mid') = take k ((pre @ [c]) @ mid)"
    proof -
      have "pre @ mid' = butlast ((pre @ [c]) @ m)" by (simp add: butlast_append mid'_def)
      moreover have "k < length ((pre @ [c]) @ m)" by (simp add: k_def)
      ultimately have "take k (pre @ mid') = take k ((pre @ [c]) @ m)"
        by (simp only: take_butlast)
      also have "\<dots> = take k (((pre @ [c]) @ m) @ [w, x, y, z])"
        by (simp add: k_def del: append_assoc)
      finally show ?thesis by (simp add: mid)
    qed
    have "fill (length (pre @ [c])) ((pre @ [c]) @ mid @ Y, length (pre @ [c]) + length mid) =
          fill (length pre) (pre @ mid' @ ''&amp;'' @ Y, length pre + length mid')"
      using fill_step_amp [of pre m w x y z Y] True mid by (simp add: mid'_def)
    also have "\<dots> = Some (take (length mid' - 4 * count_amp pre) (pre @ mid') @ escape_amp pre @ ''&amp;'' @ Y,
                          length mid' - 4 * count_amp pre)"
      by (rule snoc.IH [OF le])
    also have "\<dots> = Some (take k (pre @ mid') @ escape_amp pre @ ''&amp;'' @ Y, k)"
      by (simp only: len k_def)
    also have "\<dots> = Some (take k ((pre @ [c]) @ mid) @ escape_amp (pre @ [c]) @ Y, k)"
      unfolding tk escape_amp_snoc using True by simp
    finally show ?thesis
      using True mid by (simp add: count_amp_append k_def)
  qed
qed

lemma put_tag_append:
  "length X = length tag \<Longrightarrow>
   put_tag (P @ X @ Y, length P + length tag) tag = Some (P @ tag @ Y, length P)"
  by (simp add: put_tag_def memcpy_def)

lemma split_ends:
  assumes "length (xs :: 'a list) = n + 2"
  obtains u T v where "xs = [u] @ T @ [v]" "length T = n"
proof -
  from assms obtain u r where xs: "xs = u # r" by (cases xs) auto
  with assms have "r \<noteq> []" by auto
  then obtain T v where r: "r = T @ [v]" by (cases r rule: rev_cases) auto
  with xs assms have "length T = n" by simp
  with xs r show ?thesis using that by simp
qed

lemma put_last: "put (X @ [x], Suc (length X)) c = Some (X @ [c], length X)"
  by simp

lemma put_mid: "put (X @ [x] @ Y, Suc (length X)) c = Some (X @ [c] @ Y, length X)"
  by simp

lemma xslt_wrap_correct: "xslt_wrap mem tag = Some (wrapped tag mem, 0)"
proof -
  let ?n = "length tag"
  let ?a = "count_amp mem"
  define Z where "Z = (\<lambda>k. replicate k NUL)"
  define mid where "mid = Z (4 * ?a) @ [NUL] @ Z ?n @ [NUL]"
  have lenZ [simp]: "length (Z k) = k" for k by (simp add: Z_def)
  have lmid: "length mid = 4 * ?a + ?n + 2" by (simp add: mid_def)
  have "replicate (?n * 2 + 5 + ?a * 4) NUL =
        replicate (4 * ?a) NUL @ replicate 1 NUL @ replicate ?n NUL @ replicate 1 NUL @
        replicate 1 NUL @ replicate 1 NUL @ replicate ?n NUL @ replicate 1 NUL"
    unfolding replicate_add [symmetric] by (rule arg_cong [where f = "\<lambda>k. replicate k NUL"]) simp
  then have b: "mem @ replicate (?n * 2 + 5 + ?a * 4) NUL =
           mem @ mid @ [NUL] @ [NUL] @ Z ?n @ [NUL]"
    by (simp add: Z_def mid_def)
  have lb: "length (mem @ mid @ [NUL] @ [NUL] @ Z ?n @ [NUL]) =
        Suc (length (mem @ mid @ [NUL] @ [NUL] @ Z ?n))"
    by simp
  have s1: "put (mem @ mid @ [NUL] @ [NUL] @ Z ?n @ [NUL], length (mem @ mid @ [NUL] @ [NUL] @ Z ?n @ [NUL])) (CHR ''>'')
            = Some ((mem @ mid @ [NUL] @ [NUL]) @ Z ?n @ ''>'', length (mem @ mid @ [NUL] @ [NUL]) + ?n)"
    using put_last [of "mem @ mid @ [NUL] @ [NUL] @ Z ?n" NUL "CHR ''>''"] by simp
  have s2: "put_tag ((mem @ mid @ [NUL] @ [NUL]) @ Z ?n @ ''>'', length (mem @ mid @ [NUL] @ [NUL]) + ?n) tag
            = Some ((mem @ mid @ [NUL] @ [NUL]) @ tag @ ''>'', length (mem @ mid @ [NUL] @ [NUL]))"
    by (rule put_tag_append) simp
  have s3: "put ((mem @ mid @ [NUL] @ [NUL]) @ tag @ ''>'', length (mem @ mid @ [NUL] @ [NUL])) (CHR ''/'')
            = Some ((mem @ mid @ [NUL]) @ ''/'' @ tag @ ''>'', length (mem @ mid @ [NUL]))"
    using put_mid [of "mem @ mid @ [NUL]" NUL "tag @ ''>''" "CHR ''/''"] by simp
  have s4: "put ((mem @ mid @ [NUL]) @ ''/'' @ tag @ ''>'', length (mem @ mid @ [NUL])) (CHR ''<'')
            = Some (mem @ mid @ ''</'' @ tag @ ''>'', length mem + length mid)"
    using put_mid [of "mem @ mid" NUL "''/'' @ tag @ ''>''" "CHR ''<''"] by simp
  have le: "4 * ?a \<le> length mid" by (simp add: lmid)
  have k: "length mid - 4 * ?a = ?n + 2" by (simp add: lmid)
  have "length (take (?n + 2) (mem @ mid)) = ?n + 2" by (simp add: lmid)
  then obtain u T v where T: "take (?n + 2) (mem @ mid) = [u] @ T @ [v]" "length T = ?n"
    by (rule split_ends)
  have s5: "fill (length mem) (mem @ mid @ ''</'' @ tag @ ''>'', length mem + length mid)
            = Some (([u] @ T) @ [v] @ escape_amp mem @ ''</'' @ tag @ ''>'', Suc (length ([u] @ T)))"
    using fill_inv [OF le, of "''</'' @ tag @ ''>''"] T by (simp add: k)
  have s6: "put (([u] @ T) @ [v] @ escape_amp mem @ ''</'' @ tag @ ''>'', Suc (length ([u] @ T))) (CHR ''>'')
            = Some ([u] @ T @ ''>'' @ escape_amp mem @ ''</'' @ tag @ ''>'', length [u] + length tag)"
    using put_mid [of "[u] @ T" v "escape_amp mem @ ''</'' @ tag @ ''>''" "CHR ''>''"] T by simp
  have s7: "put_tag ([u] @ T @ ''>'' @ escape_amp mem @ ''</'' @ tag @ ''>'', length [u] + length tag) tag
            = Some ([u] @ tag @ ''>'' @ escape_amp mem @ ''</'' @ tag @ ''>'', length [u])"
    by (rule put_tag_append) (rule T)
  have s8: "put ([u] @ tag @ ''>'' @ escape_amp mem @ ''</'' @ tag @ ''>'', length [u]) (CHR ''<'')
            = Some (wrapped tag mem, 0)"
    by (simp add: wrapped_def)
  show ?thesis
    unfolding xslt_wrap_def Let_def b
    by (simp only: s1 s2 s3 s4 s5 s6 s7 s8 bind.bind_lunit)
qed

lemma try_to_xslt_open_csv_nonempty:
  "mem \<noteq> [] \<Longrightarrow> try_to_xslt_open_csv file mem tag = Some (0, wrapped tag mem, [])"
  by (simp add: try_to_xslt_open_csv_def xslt_wrap_correct)


lemma length_wrapped:
  "length (wrapped tag mem) =
     length mem + 2 * length tag + 5 + 4 * length (filter (\<lambda>c. c = CHR ''&'') mem)"
  by (simp add: wrapped_def length_escape_amp count_amp_filter)

text \<open>
  Claim C1. For every non-empty buffer \<open>mem\<close> and every tag, \<open>try_to_xslt_open_csv\<close>
  returns 0 and leaves in \<open>mem\<close> exactly \<open><tag>\<close>, the buffer with every \<open>&\<close> replaced by
  \<open>&amp;\<close> and no other byte changed, and \<open></tag>\<close>; the length of the result is
  the old length plus twice the tag length plus 5 plus 4 for each \<open>&\<close>; the backward fill
  never writes outside the buffer and ends with the write cursor at offset 0, so the
  off-by diagnostic is not emitted. With an empty buffer and an empty file the function
  returns 0 and leaves the buffer empty.
\<close>

theorem markup_wrapper_exact:
  "(mem \<noteq> [] \<longrightarrow>
      try_to_xslt_open_csv file mem tag =
        Some (0, ''<'' @ tag @ ''>'' @ escape_amp mem @ ''</'' @ tag @ ''>'', []) \<and>
      xslt_wrap mem tag = Some (''<'' @ tag @ ''>'' @ escape_amp mem @ ''</'' @ tag @ ''>'', 0) \<and>
      length (''<'' @ tag @ ''>'' @ escape_amp mem @ ''</'' @ tag @ ''>'') =
        length mem + 2 * length tag + 5 + 4 * length (filter (\<lambda>c. c = CHR ''&'') mem)) \<and>
   escape_amp mem = concat (map (\<lambda>c. if c = CHR ''&'' then ''&amp;'' else [c]) mem) \<and>
   try_to_xslt_open_csv (Some []) [] tag = Some (0, [], [])"
proof -
  have "try_to_xslt_open_csv (Some []) [] tag = Some (0, [], [])"
    by (simp add: try_to_xslt_open_csv_def)
  moreover have "escape_amp mem = concat (map (\<lambda>c. if c = CHR ''&'' then ''&amp;'' else [c]) mem)"
    by (simp add: escape_amp_def)
  ultimately show ?thesis
    using try_to_xslt_open_csv_nonempty [of mem "file" tag] xslt_wrap_correct [of mem tag]
      length_wrapped [of tag mem]
    by (simp add: wrapped_def)
qed

theorem markup_wrapper_exact_witness:
  "''A&B'' \<noteq> [] \<and>
   try_to_xslt_open_csv None ''A&B'' ''x'' = Some (0, ''<x>A&amp;B</x>'', []) \<and>
   xslt_wrap ''A&B'' ''x'' = Some (''<x>A&amp;B</x>'', 0) \<and>
   length ''<x>A&amp;B</x>'' = 14"
  using markup_wrapper_exact [of "''A&B''" None "''x''"]
  by (simp add: escape_amp_def)

section \<open>The tokenizer: \<open>parse_csv_line\<close>\<close>

abbreviation LF :: char where
  "LF \<equiv> CHR 0x0A"

abbreviation CR :: char where
  "CR \<equiv> CHR 0x0D"

text \<open>\<open>*p\<close> and \<open>p[n]\<close>: behind the last byte of the buffer stands the terminating NUL.\<close>

definition byte_at :: "string \<Rightarrow> nat \<Rightarrow> char" where
  "byte_at p n = (if n < length p then p ! n else NUL)"

text \<open>
  \<open>strstr\<close> on a C string: the offset of the first occurrence of the needle, or \<open>None\<close>
  for a null result. \<open>memchr\<close> likewise, on a span of bytes.
\<close>

fun strstr :: "string \<Rightarrow> string \<Rightarrow> nat option" where
  "strstr [] needle = (if needle = [] then Some 0 else None)"
| "strstr (c # cs) needle =
     (if prefix needle (c # cs) then Some 0 else map_option Suc (strstr cs needle))"

fun memchr :: "string \<Rightarrow> char \<Rightarrow> nat option" where
  "memchr [] c = None"
| "memchr (x # xs) c = (if x = c then Some 0 else map_option Suc (memchr xs c))"


text \<open>
  The field loop \<open>while (field_start < line_end)\<close> of \<open>parse_csv_line\<close>. Its argument is
  the span of bytes from \<open>field_start\<close> to \<open>line_end\<close>.
\<close>

fun get_fields :: "char \<Rightarrow> string \<Rightarrow> string list" where
  "get_fields delim span =
     (if span = [] then []
      else (case memchr span delim of
              Some k \<Rightarrow> take k span # get_fields delim (drop (Suc k) span)
            | None \<Rightarrow> [span]))"

declare get_fields.simps [simp del]

text \<open>
  \<open>parse_csv_line(ptr, NL, delim, fields)\<close>. The result is the cursor \<open>ptr\<close> and the vector
  \<open>fields\<close> afterwards. \<open>line_end\<close> is an offset from \<open>ptr\<close>.
\<close>

definition parse_csv_line ::
  "string \<Rightarrow> string \<Rightarrow> char \<Rightarrow> string list \<Rightarrow> diag + (string \<times> string list)" where
  "parse_csv_line ptr NL delim fields =
     (let found = strstr (c_str ptr) NL;
          withNL = (found \<noteq> None);
          line_end = (case found of Some i \<Rightarrow> i | None \<Rightarrow> length (c_str ptr))
      in if byte_at ptr 0 = delim then
           Inr (drop (line_end + (if withNL then length NL else 0)) ptr,
                fields @ get_fields delim (take (line_end - 1) (drop 1 ptr)))
         else Inl No_leading_delimiter_found)"

section \<open>The interchange (DAN) decoder\<close>

text \<open>
  The newline marker \<open>NL\<close> of \<open>parse_dan_format\<close> is one of the two literals it assigns.
\<close>

datatype newline = CRLF | LF_only

fun nl_str :: "newline \<Rightarrow> string" where
  "nl_str CRLF = [CR, LF]"
| "nl_str LF_only = [LF]"

text \<open>
  Modelled from the spec: the canonical parameter set of \<open>xmlparams.h\<close>, which is not among
  the sources: an ordered sequence of name and value pairs; \<open>xml_params_add\<close> appends,
  \<open>xml_params_resize\<close> to a smaller size keeps the front, \<open>xml_params_count\<close> is the size.
\<close>

type_synonym xml_params = "(string \<times> string) list"

definition xml_params_add :: "xml_params \<Rightarrow> string \<Rightarrow> string \<Rightarrow> xml_params" where
  "xml_params_add params key v = params @ [(key, v)]"






subsection \<open>The dive loop\<close>

unbundle bit_operations_syntax

lemma strstr_le: "strstr s n = Some i \<Longrightarrow> i + length n \<le> length s"
proof (induction s arbitrary: i)
  case Nil
  then show ?case by (simp split: if_splits)
next
  case (Cons c cs)
  show ?case
  proof (cases "prefix n (c # cs)")
    case True
    with Cons.prems have "i = 0" by simp
    with True show ?thesis using prefix_length_le [of n "c # cs"] by simp
  next
    case False
    with Cons.prems obtain j where "strstr cs n = Some j" "i = Suc j" by auto
    with Cons.IH show ?thesis by simp
  qed
qed

lemma length_c_str: "length (c_str p) \<le> length p"
  by (simp add: c_str_def length_takeWhile_le)




text \<open>
  The transform engine \<open>parse_xml_buffer\<close> is external: a function from the document and
  the parameter set to a status. Each call made to it is recorded as a pair of the two.

  \<open>parse_dan_dive\<close> is the body of the outer \<open>while (ptr < end)\<close> loop up to the call of the
  engine: header, optional profile, trailer, wrapper. Its first argument is the content of
  the file as \<open>readfile\<close> gives it, which the wrapper reads when \<open>mem_csv\<close> is empty; the
  parameter set is the one of before the loop, to which \<open>xml_params_resize\<close> cuts it back.
\<close>

type_synonym xml_call = "string \<times> xml_params"














text \<open>An engine that accepts every document, for concrete runs.\<close>

definition engine_ok :: "string \<Rightarrow> xml_params \<Rightarrow> int" where
  "engine_ok doc params = 0"

section \<open>Properties of the tokenizer\<close>

text \<open>
  The fields of a line joined again by the delimiter, to state what the tokenizer emits.
\<close>

fun join :: "char \<Rightarrow> string list \<Rightarrow> string" where
  "join d [] = []"
| "join d [f] = f"
| "join d (f # g # fs) = f @ d # join d (g # fs)"

lemma c_str_prefix: "\<exists>r. p = c_str p @ r"
  by (metis c_str_def takeWhile_dropWhile_id)

lemma c_str_no_NUL: "NUL \<notin> set p \<Longrightarrow> c_str p = p"
  by (auto simp: c_str_def takeWhile_eq_all_conv)

lemma strstr_Some_prefix: "strstr s n = Some i \<Longrightarrow> prefix n (drop i s)"
proof (induction s arbitrary: i)
  case Nil
  then show ?case by (simp split: if_splits)
next
  case (Cons c cs)
  then show ?case by (cases "prefix n (c # cs)") auto
qed

lemma strstr_Some_first: "strstr s n = Some i \<Longrightarrow> j < i \<Longrightarrow> \<not> prefix n (drop j s)"
proof (induction s arbitrary: i j)
  case Nil
  then show ?case by (simp split: if_splits)
next
  case (Cons c cs)
  show ?case
  proof (cases "prefix n (c # cs)")
    case True
    with Cons.prems show ?thesis by simp
  next
    case False
    with Cons.prems obtain k where k: "strstr cs n = Some k" "i = Suc k" by auto
    show ?thesis
    proof (cases j)
      case 0
      with False show ?thesis by simp
    next
      case (Suc j')
      with Cons.IH [OF k(1), of j'] Cons.prems(2) k(2) show ?thesis by simp
    qed
  qed
qed

lemma strstr_None: "strstr s n = None \<Longrightarrow> \<not> prefix n (drop j s)"
proof (induction s arbitrary: j)
  case Nil
  then show ?case by (simp split: if_splits)
next
  case (Cons c cs)
  then have np: "\<not> prefix n (c # cs)" and r: "strstr cs n = None"
    by (auto split: if_splits)
  show ?case
  proof (cases j)
    case 0
    with np show ?thesis by simp
  next
    case (Suc j')
    with Cons.IH [OF r, of j'] show ?thesis by simp
  qed
qed

lemma strstr_c_str_take:
  assumes "strstr (c_str p) n = Some i"
  shows "take (length n) (drop i p) = n"
proof -
  obtain r where r: "p = c_str p @ r" using c_str_prefix by blast
  from strstr_Some_prefix [OF assms] obtain t where t: "drop i (c_str p) = n @ t"
    by (auto simp: prefix_def)
  have le: "i \<le> length (c_str p)" using strstr_le [OF assms] by simp
  have "drop i p = drop i (c_str p) @ r"
    using le r by (metis drop_append diff_is_0_eq drop0)
  with t show ?thesis by simp
qed

lemma strstr_c_str_first:
  assumes "strstr (c_str p) n = Some i" "j < i"
  shows "take (length n) (drop j p) \<noteq> n"
proof
  assume a: "take (length n) (drop j p) = n"
  obtain r where r: "p = c_str p @ r" using c_str_prefix by blast
  have le: "i + length n \<le> length (c_str p)" using strstr_le [OF assms(1)] .
  have "drop j p = drop j (c_str p) @ r"
    using le assms(2) r by (metis drop_append diff_is_0_eq drop0 less_imp_le_nat le_trans le_add1)
  moreover have "length n \<le> length (drop j (c_str p))" using le assms(2) by simp
  ultimately have "take (length n) (drop j p) = take (length n) (drop j (c_str p))" by simp
  with a have "prefix n (drop j (c_str p))" by (metis take_is_prefix)
  with strstr_Some_first [OF assms] show False by simp
qed

lemma memchr_Some: "memchr s c = Some k \<Longrightarrow> k < length s \<and> s ! k = c \<and> c \<notin> set (take k s)"
  by (induction s arbitrary: k) (auto split: if_splits)

lemma memchr_None: "memchr s c = None \<Longrightarrow> c \<notin> set s"
  by (induction s) (auto split: if_splits)

lemma memchr_split:
  assumes "memchr s c = Some k"
  shows "s = take k s @ c # drop (Suc k) s"
  using memchr_Some [OF assms] id_take_nth_drop [of k s] by simp

lemma get_fields_nonempty: "s \<noteq> [] \<Longrightarrow> get_fields d s \<noteq> []"
  by (simp add: get_fields.simps [of d s] split: option.splits)

lemma get_fields_no_delim: "f \<in> set (get_fields d s) \<Longrightarrow> d \<notin> set f"
proof (induction d s rule: get_fields.induct)
  case (1 d s)
  show ?case
  proof (cases "s = []")
    case True
    with "1.prems" show ?thesis by (simp add: get_fields.simps)
  next
    case False
    show ?thesis
    proof (cases "memchr s d")
      case None
      with False "1.prems" have "f = s" by (simp add: get_fields.simps [of d s])
      with memchr_None [OF None] show ?thesis by simp
    next
      case (Some k)
      with False "1.prems" have "f = take k s \<or> f \<in> set (get_fields d (drop (Suc k) s))"
        by (simp add: get_fields.simps [of d s])
      with "1.IH" [OF False Some] memchr_Some [OF Some] show ?thesis by auto
    qed
  qed
qed

lemma get_fields_count: "length (get_fields d s) \<le> count_list s d + 1"
proof (induction d s rule: get_fields.induct)
  case (1 d s)
  show ?case
  proof (cases "s = []")
    case True
    then show ?thesis by (simp add: get_fields.simps)
  next
    case False
    show ?thesis
    proof (cases "memchr s d")
      case None
      with False show ?thesis by (simp add: get_fields.simps [of d s])
    next
      case (Some k)
      have "count_list s d = count_list (take k s @ d # drop (Suc k) s) d"
        using memchr_split [OF Some] by simp
      also have "\<dots> = Suc (count_list (drop (Suc k) s) d)"
        using memchr_Some [OF Some] by (simp add: count_list_0_iff)
      finally show ?thesis
        using "1.IH" [OF False Some] False Some by (simp add: get_fields.simps [of d s])
    qed
  qed
qed

lemma get_fields_join:
  "s \<noteq> [] \<Longrightarrow> join d (get_fields d s) = (if last s = d then butlast s else s)"
proof (induction d s rule: get_fields.induct)
  case (1 d s)
  show ?case
  proof (cases "memchr s d")
    case None
    have "last s \<in> set s" using "1.prems" by simp
    with memchr_None [OF None] have "last s \<noteq> d" by auto
    with None "1.prems" show ?thesis by (simp add: get_fields.simps [of d s])
  next
    case (Some k)
    define pre where "pre = take k s"
    define rest where "rest = drop (Suc k) s"
    have s: "s = pre @ d # rest" using memchr_split [OF Some] by (simp add: pre_def rest_def)
    have gf: "get_fields d s = pre # get_fields d rest"
      using Some "1.prems" by (simp add: get_fields.simps [of d s] pre_def rest_def)
    show ?thesis
    proof (cases "rest = []")
      case True
      then have "get_fields d s = [pre]" by (simp add: gf get_fields.simps [of d "[]"])
      with True show ?thesis by (simp add: s)
    next
      case False
      then obtain g gs where g: "get_fields d rest = g # gs"
        using get_fields_nonempty [of rest d] by (cases "get_fields d rest") auto
      have ih: "join d (get_fields d rest) = (if last rest = d then butlast rest else rest)"
        using "1.IH" [OF "1.prems" Some] False by (simp add: rest_def)
      have "join d (get_fields d s) = pre @ d # join d (get_fields d rest)"
        by (simp add: gf g)
      also have "\<dots> = pre @ d # (if last rest = d then butlast rest else rest)"
        by (simp only: ih)
      also have "\<dots> = (if last (pre @ d # rest) = d then butlast (pre @ d # rest) else pre @ d # rest)"
        using False by (simp add: butlast_append)
      finally show ?thesis by (simp only: s [symmetric])
    qed
  qed
qed


lemma count_list_Cons_same: "count_list (d # xs) d = Suc (count_list xs d)"
  by simp

lemma parse_csv_line_fail:
  "byte_at ptr 0 \<noteq> delim \<Longrightarrow> parse_csv_line ptr NL delim fields = Inl No_leading_delimiter_found"
  by (simp add: parse_csv_line_def Let_def)

text \<open>The offset of \<open>line_end\<close> from the cursor in \<open>parse_csv_line\<close>.\<close>

definition line_end_of :: "string \<Rightarrow> string \<Rightarrow> nat" where
  "line_end_of ptr NL = (case strstr (c_str ptr) NL of Some i \<Rightarrow> i | None \<Rightarrow> length (c_str ptr))"

lemma parse_csv_line_ok:
  assumes "byte_at ptr 0 = delim"
  shows "parse_csv_line ptr NL delim fields =
           Inr (drop (line_end_of ptr NL + (if strstr (c_str ptr) NL = None then 0 else length NL)) ptr,
                fields @ get_fields delim (take (line_end_of ptr NL - 1) (drop 1 ptr)))"
  using assms by (simp add: parse_csv_line_def Let_def line_end_of_def split: option.splits)

lemma line_end_of_le: "line_end_of ptr NL \<le> length ptr"
proof (cases "strstr (c_str ptr) NL")
  case None
  then show ?thesis using length_c_str [of ptr] by (simp add: line_end_of_def)
next
  case (Some i)
  then show ?thesis using strstr_le [OF Some] length_c_str [of ptr] by (simp add: line_end_of_def)
qed

lemma line_span_split:
  assumes "byte_at ptr 0 = delim" "0 < line_end_of ptr NL"
  shows "take (line_end_of ptr NL) ptr = delim # take (line_end_of ptr NL - 1) (drop 1 ptr)"
proof -
  from assms(2) line_end_of_le [of ptr NL] obtain c cs where p: "ptr = c # cs"
    by (cases ptr) auto
  with assms(1) have "c = delim" by (simp add: byte_at_def)
  with p assms(2) show ?thesis by (cases "line_end_of ptr NL") simp_all
qed

text \<open>
  Claim C7. A line that does not begin with the delimiter makes \<open>parse_csv_line\<close> fail.
  Otherwise it succeeds; the fields it emits are at most the number of delimiters in the line
  span plus one (indeed at most the number of delimiters), contain no delimiter, and joined by
  the delimiter give back the line span without its leading delimiter and without one trailing
  delimiter, so the leading empty field is skipped and the last field is
  emitted whether or not a delimiter follows it; the cursor afterwards stands just behind
  the first newline marker at or after the old cursor, or, when there is none, at the end of
  the C string, which is the end of the buffer when the buffer holds no NUL byte.
\<close>

theorem tokenizer_line:
  "(byte_at ptr 0 \<noteq> delim \<longrightarrow>
      parse_csv_line ptr NL delim fields = Inl No_leading_delimiter_found) \<and>
   (byte_at ptr 0 = delim \<longrightarrow>
      (\<exists>ptr' emitted line_end inner.
         parse_csv_line ptr NL delim fields = Inr (ptr', fields @ emitted) \<and>
         line_end \<le> length ptr \<and>
         length emitted \<le> count_list (take line_end ptr) delim + 1 \<and>
         length emitted \<le> count_list (take line_end ptr) delim \<and>
         (0 < line_end \<longrightarrow> take line_end ptr = delim # inner) \<and>
         (\<forall>f \<in> set emitted. delim \<notin> set f) \<and>
         (inner = [] \<longrightarrow> emitted = []) \<and>
         (inner \<noteq> [] \<longrightarrow> emitted \<noteq> [] \<and>
            join delim emitted = (if last inner = delim then butlast inner else inner)) \<and>
         (\<forall>i. strstr (c_str ptr) NL = Some i \<longrightarrow>
            line_end = i \<and> take (length NL) (drop i ptr) = NL \<and>
            (\<forall>j<i. take (length NL) (drop j ptr) \<noteq> NL) \<and>
            ptr' = drop (i + length NL) ptr) \<and>
         (strstr (c_str ptr) NL = None \<longrightarrow>
            line_end = length (c_str ptr) \<and> ptr' = drop line_end ptr \<and>
            (NUL \<notin> set ptr \<longrightarrow> ptr' = []))))"
proof (intro conjI impI)
  assume "byte_at ptr 0 \<noteq> delim"
  then show "parse_csv_line ptr NL delim fields = Inl No_leading_delimiter_found"
    by (rule parse_csv_line_fail)
next
  assume d: "byte_at ptr 0 = delim"
  define line_end where "line_end = line_end_of ptr NL"
  define inner where "inner = take (line_end - 1) (drop 1 ptr)"
  define emitted where "emitted = get_fields delim inner"
  define ptr' where
    "ptr' = drop (line_end + (if strstr (c_str ptr) NL = None then 0 else length NL)) ptr"
  have 1: "parse_csv_line ptr NL delim fields = Inr (ptr', fields @ emitted)"
    using parse_csv_line_ok [OF d] by (simp add: ptr'_def emitted_def inner_def line_end_def)
  have 2: "line_end \<le> length ptr" unfolding line_end_def by (rule line_end_of_le)
  have 5: "0 < line_end \<longrightarrow> take line_end ptr = delim # inner"
    using line_span_split [OF d] by (simp add: line_end_def inner_def)
  have inner0: "line_end = 0 \<Longrightarrow> inner = []" by (simp add: inner_def)
  have 4: "length emitted \<le> count_list (take line_end ptr) delim"
  proof (cases "line_end = 0")
    case True
    then show ?thesis using inner0 by (simp add: emitted_def get_fields.simps)
  next
    case False
    with 5 have "count_list (take line_end ptr) delim = Suc (count_list inner delim)" by simp
    with get_fields_count [of delim inner] show ?thesis by (simp add: emitted_def)
  qed
  have 3: "length emitted \<le> count_list (take line_end ptr) delim + 1" using 4 by simp
  have 6: "\<forall>f \<in> set emitted. delim \<notin> set f"
    using get_fields_no_delim by (auto simp: emitted_def)
  have 7: "inner = [] \<longrightarrow> emitted = []" by (simp add: emitted_def get_fields.simps)
  have 8: "inner \<noteq> [] \<longrightarrow> emitted \<noteq> [] \<and>
            join delim emitted = (if last inner = delim then butlast inner else inner)"
    using get_fields_nonempty [of inner delim] get_fields_join [of inner delim]
    by (simp add: emitted_def)
  have 9: "\<forall>i. strstr (c_str ptr) NL = Some i \<longrightarrow>
            line_end = i \<and> take (length NL) (drop i ptr) = NL \<and>
            (\<forall>j<i. take (length NL) (drop j ptr) \<noteq> NL) \<and>
            ptr' = drop (i + length NL) ptr"
    using strstr_c_str_take [of ptr NL] strstr_c_str_first [of ptr NL]
    by (auto simp: line_end_def line_end_of_def ptr'_def)
  have 10: "strstr (c_str ptr) NL = None \<longrightarrow>
            line_end = length (c_str ptr) \<and> ptr' = drop line_end ptr \<and>
            (NUL \<notin> set ptr \<longrightarrow> ptr' = [])"
    using c_str_no_NUL [of ptr] by (auto simp: line_end_def line_end_of_def ptr'_def)
  show "\<exists>ptr' emitted line_end inner.
         parse_csv_line ptr NL delim fields = Inr (ptr', fields @ emitted) \<and>
         line_end \<le> length ptr \<and>
         length emitted \<le> count_list (take line_end ptr) delim + 1 \<and>
         length emitted \<le> count_list (take line_end ptr) delim \<and>
         (0 < line_end \<longrightarrow> take line_end ptr = delim # inner) \<and>
         (\<forall>f \<in> set emitted. delim \<notin> set f) \<and>
         (inner = [] \<longrightarrow> emitted = []) \<and>
         (inner \<noteq> [] \<longrightarrow> emitted \<noteq> [] \<and>
            join delim emitted = (if last inner = delim then butlast inner else inner)) \<and>
         (\<forall>i. strstr (c_str ptr) NL = Some i \<longrightarrow>
            line_end = i \<and> take (length NL) (drop i ptr) = NL \<and>
            (\<forall>j<i. take (length NL) (drop j ptr) \<noteq> NL) \<and>
            ptr' = drop (i + length NL) ptr) \<and>
         (strstr (c_str ptr) NL = None \<longrightarrow>
            line_end = length (c_str ptr) \<and> ptr' = drop line_end ptr \<and>
            (NUL \<notin> set ptr \<longrightarrow> ptr' = []))"
    by (rule exI [of _ ptr'], rule exI [of _ emitted], rule exI [of _ line_end],
        rule exI [of _ inner])
       (intro conjI 1 2 3 4 5 6 7 8 9 10)
qed


theorem tokenizer_line_witness:
  "byte_at ''a|b'' 0 \<noteq> CHR ''|'' \<and>
   parse_csv_line ''a|b'' [LF] (CHR ''|'') [] = Inl No_leading_delimiter_found \<and>
   byte_at (''|a||b'' @ [LF] @ ''|c'') 0 = CHR ''|'' \<and>
   strstr (c_str (''|a||b'' @ [LF] @ ''|c'')) [LF] = Some 5 \<and>
   parse_csv_line (''|a||b'' @ [LF] @ ''|c'') [LF] (CHR ''|'') [] = Inr (''|c'', [''a'', [], ''b'']) \<and>
   strstr (c_str ''|c'') [LF] = None \<and>
   parse_csv_line ''|c'' [LF] (CHR ''|'') [] = Inr ([], [''c''])"
  using tokenizer_line [of "''a|b''" "CHR ''|''" "[LF]" "[]"]
    tokenizer_line [of "''|a||b'' @ [LF] @ ''|c''" "CHR ''|''" "[LF]" "[]"]
    tokenizer_line [of "''|c''" "CHR ''|''" "[LF]" "[]"]
  by (simp add: parse_csv_line_def byte_at_def c_str_def get_fields.simps)

section \<open>Properties of the interchange decoder\<close>










































section \<open>The metadata-header (Seabear) decoder\<close>

lemma strstr_nl2_lt:
  assumes "strstr (c_str ptr) (nl_str NL @ nl_str NL) = Some i"
  shows "i < length ptr"
proof -
  have "i + length (nl_str NL @ nl_str NL) \<le> length ptr"
    using strstr_le [OF assms] length_c_str [of ptr] by simp
  moreover have "0 < length (nl_str NL @ nl_str NL)" by (cases NL) simp_all
  ultimately show ?thesis by linarith
qed

text \<open>
  The two scanning loops \<open>while ((ptr = strstr(ptr, sep)) != NULL) { ptr_old = ptr; ptr += 1; }\<close>,
  with \<open>sep\<close> the newline marker twice. The result is \<open>ptr_old\<close>, null when the marker pair
  never occurs.
\<close>

function scan_sep :: "newline \<Rightarrow> string \<Rightarrow> string option \<Rightarrow> string option" where
  "scan_sep NL ptr ptr_old =
     (case strstr (c_str ptr) (nl_str NL @ nl_str NL) of
        None \<Rightarrow> ptr_old
      | Some i \<Rightarrow> scan_sep NL (drop (Suc i) ptr) (Some (drop i ptr)))"
  by pat_completeness auto
termination
  by (relation "measure (\<lambda>(NL, ptr, ptr_old). length ptr)") (auto dest: strstr_nl2_lt)

declare scan_sep.simps [simp del]

text \<open>
  The separator scan of \<open>parse_seabear_csv_file\<close>: the newline marker \<open>NL\<close> and the cursor
  \<open>ptr_old\<close> behind the separator, that is the bytes the buffer holds after the
  \<open>memmove\<close> and \<open>resize\<close>; \<open>None\<close> when \<open>NL\<close> stays null.
\<close>

definition seabear_split :: "string \<Rightarrow> (newline \<times> string) option" where
  "seabear_split mem =
     (case scan_sep CRLF mem None of
        Some ptr_old \<Rightarrow> Some (CRLF, drop 4 ptr_old)
      | None \<Rightarrow>
          (case scan_sep LF_only mem None of
             Some ptr_old \<Rightarrow> Some (LF_only, drop 2 ptr_old)
           | None \<Rightarrow> None))"

text \<open>
  Modelled from the spec: \<open>xml_params_set_value\<close> of \<open>xmlparams.h\<close>, which is not among the
  sources, replaces the value of the entry at an index.
\<close>

definition xml_params_set_value :: "xml_params \<Rightarrow> nat \<Rightarrow> string \<Rightarrow> xml_params" where
  "xml_params_set_value params i v = params[i := (fst (params ! i), v)]"

text \<open>
  The date and time of the header: the line behind the one that holds \<open>Serial number:\<close> is
  read at fixed offsets. The bytes copied into \<open>buf\<close> are handed on as a C string. A read
  behind the terminating NUL of the buffer is the fault \<open>Read_outside_buffer\<close>.
\<close>

definition memcpy_from :: "string \<Rightarrow> nat \<Rightarrow> nat \<Rightarrow> string" where
  "memcpy_from p off n = map (byte_at p) [off ..< off + n]"

definition seabear_header_date :: "string \<Rightarrow> newline \<Rightarrow> xml_params \<Rightarrow> diag + xml_params" where
  "seabear_header_date mem NL params =
     (case strstr (c_str mem) ''Serial number:'' of
        None \<Rightarrow> Inr params
      | Some s \<Rightarrow>
          (case strstr (c_str (drop s mem)) (nl_str NL) of
             None \<Rightarrow> Inr params
           | Some l \<Rightarrow>
               let ptr = drop (s + l + length (nl_str NL) + 2) mem;
                   n = length params
               in if s + l + length (nl_str NL) + 2 + 15 > length mem then Inl Read_outside_buffer
                  else
                    let date = c_str (memcpy_from ptr 0 4 @ memcpy_from ptr 5 2 @ memcpy_from ptr 8 2);
                        params1 = xml_params_set_value params (n - 2) date;
                        time = c_str (byte_at (snd (params1 ! (n - 1))) 0 #
                                      memcpy_from ptr 11 2 @ memcpy_from ptr 14 2);
                        params2 = xml_params_set_value params1 (n - 1) time
                    in Inr params2))"

text \<open>
  \<open>parse_seabear_csv_file\<close>. The current local date and time, formatted, are the arguments
  \<open>curdate\<close> and \<open>curtime\<close>.
\<close>

definition parse_seabear_csv_file ::
  "string option \<Rightarrow> (string \<Rightarrow> xml_params \<Rightarrow> int) \<Rightarrow> xml_params \<Rightarrow> string \<Rightarrow> string \<Rightarrow> string \<Rightarrow>
   (diag + int) \<times> xml_call list" where
  "parse_seabear_csv_file file parse_xml_buffer params curdate curtime csvtemplate =
     (let params1 = xml_params_add (xml_params_add params ''date'' curdate) ''time'' curtime
      in case file of
           None \<Rightarrow> (Inl Failed_to_read, [])
         | Some mem \<Rightarrow>
             (case seabear_split mem of
                None \<Rightarrow> (Inl No_empty_lines, [])
              | Some (NL, body) \<Rightarrow>
                  (case seabear_header_date mem NL params1 of
                     Inl e \<Rightarrow> (Inl e, [])
                   | Inr params2 \<Rightarrow>
                       (case try_to_xslt_open_csv file body csvtemplate of
                          None \<Rightarrow> (Inl Write_outside_buffer, [])
                        | Some (r, doc, info) \<Rightarrow>
                            if r \<noteq> 0 then (Inl Xslt_open_failed, [])
                            else (Inr (parse_xml_buffer doc params2), [(doc, params2)])))))"


text \<open>The last occurrence of a separator in a string, to state what the scan finds.\<close>

definition last_occ :: "string \<Rightarrow> string \<Rightarrow> nat \<Rightarrow> bool" where
  "last_occ sep s k = (prefix sep (drop k s) \<and> (\<forall>j>k. \<not> prefix sep (drop j s)))"

lemma c_str_drop: "n \<le> length (c_str p) \<Longrightarrow> c_str (drop n p) = drop n (c_str p)"
proof (induction p arbitrary: n)
  case Nil
  then show ?case by (simp add: c_str_def)
next
  case (Cons c cs)
  show ?case
  proof (cases n)
    case 0
    then show ?thesis by simp
  next
    case (Suc m)
    with Cons.prems have "c \<noteq> NUL" by (auto simp: c_str_def split: if_splits)
    with Suc Cons show ?thesis by (simp add: c_str_def)
  qed
qed

lemma strstr_None_iff: "strstr s n = None \<longleftrightarrow> (\<forall>j. \<not> prefix n (drop j s))"
proof
  assume "strstr s n = None"
  then show "\<forall>j. \<not> prefix n (drop j s)" using strstr_None by blast
next
  assume a: "\<forall>j. \<not> prefix n (drop j s)"
  show "strstr s n = None"
  proof (cases "strstr s n")
    case None
    then show ?thesis .
  next
    case (Some i)
    with strstr_Some_prefix [OF Some] a show ?thesis by blast
  qed
qed

lemma scan_sep_none:
  "(\<forall>k. \<not> prefix (nl_str NL @ nl_str NL) (drop k (c_str ptr))) \<Longrightarrow> scan_sep NL ptr ptr_old = ptr_old"
  by (simp add: scan_sep.simps [of NL ptr] strstr_None_iff [symmetric])

lemma scan_sep_last:
  "last_occ (nl_str NL @ nl_str NL) (c_str ptr) k \<Longrightarrow> scan_sep NL ptr ptr_old = Some (drop k ptr)"
proof (induction NL ptr ptr_old arbitrary: k rule: scan_sep.induct)
  case (1 NL ptr ptr_old)
  let ?sep = "nl_str NL @ nl_str NL"
  from "1.prems" have pk: "prefix ?sep (drop k (c_str ptr))"
    and last: "\<And>j. k < j \<Longrightarrow> \<not> prefix ?sep (drop j (c_str ptr))"
    by (auto simp: last_occ_def)
  from pk obtain i where i: "strstr (c_str ptr) ?sep = Some i"
    using strstr_None [of "c_str ptr" ?sep k] by (cases "strstr (c_str ptr) ?sep") auto
  have ik: "i \<le> k" using strstr_Some_first [OF i, of k] pk by (cases "i \<le> k") auto
  have le: "Suc i \<le> length (c_str ptr)"
    using strstr_le [OF i] by (cases NL) simp_all
  have cd: "c_str (drop (Suc i) ptr) = drop (Suc i) (c_str ptr)" by (rule c_str_drop [OF le])
  have unf: "scan_sep NL ptr ptr_old = scan_sep NL (drop (Suc i) ptr) (Some (drop i ptr))"
    by (simp add: scan_sep.simps [of NL ptr] i)
  show ?case
  proof (cases "i = k")
    case True
    have "\<not> prefix ?sep (drop j (c_str (drop (Suc i) ptr)))" for j
      unfolding cd using last [of "j + Suc i"] True by simp
    then have "\<forall>j. \<not> prefix ?sep (drop j (c_str (drop (Suc i) ptr)))" by blast
    then have "scan_sep NL (drop (Suc i) ptr) (Some (drop i ptr)) = Some (drop i ptr)"
      by (rule scan_sep_none)
    with unf True show ?thesis by simp
  next
    case False
    with ik have lt: "Suc i \<le> k" by simp
    have "last_occ ?sep (c_str (drop (Suc i) ptr)) (k - Suc i)"
      unfolding last_occ_def cd
    proof (intro conjI allI impI)
      show "prefix ?sep (drop (k - Suc i) (drop (Suc i) (c_str ptr)))" using pk lt by simp
    next
      fix j assume "k - Suc i < j"
      then have "k < j + Suc i" using lt by linarith
      from last [OF this] show "\<not> prefix ?sep (drop j (drop (Suc i) (c_str ptr)))" by simp
    qed
    from "1.IH" [OF i this] have "scan_sep NL (drop (Suc i) ptr) (Some (drop i ptr)) =
        Some (drop (k - Suc i) (drop (Suc i) ptr))" .
    with unf lt show ?thesis by simp
  qed
qed

lemma prefix_drop_c_str:
  assumes "prefix n (drop k (c_str p))"
  shows "prefix n (drop k p)"
proof -
  obtain r where r: "p = c_str p @ r" using c_str_prefix by blast
  have "drop k p = drop k (c_str p) @ drop (k - length (c_str p)) r"
    by (subst r) simp
  with assms show ?thesis by (metis prefix_prefix)
qed

lemma seabear_split_none:
  assumes "\<forall>k. \<not> prefix [CR, LF, CR, LF] (drop k mem)" "\<forall>k. \<not> prefix [LF, LF] (drop k mem)"
  shows "seabear_split mem = None"
proof -
  have 1: "\<forall>k. \<not> prefix (nl_str CRLF @ nl_str CRLF) (drop k (c_str mem))"
    using assms(1) prefix_drop_c_str [of "[CR, LF, CR, LF]" _ mem] by auto
  have 2: "\<forall>k. \<not> prefix (nl_str LF_only @ nl_str LF_only) (drop k (c_str mem))"
    using assms(2) prefix_drop_c_str [of "[LF, LF]" _ mem] by auto
  show ?thesis
    by (simp add: seabear_split_def scan_sep_none [OF 1] scan_sep_none [OF 2])
qed

lemma seabear_split_crlf:
  assumes "last_occ [CR, LF, CR, LF] (c_str mem) k"
  shows "seabear_split mem = Some (CRLF, drop (k + 4) mem)"
proof -
  have "scan_sep CRLF mem None = Some (drop k mem)"
    using assms by (intro scan_sep_last) simp
  then show ?thesis by (simp add: seabear_split_def add.commute)
qed

lemma seabear_split_lf:
  assumes "\<forall>j. \<not> prefix [CR, LF, CR, LF] (drop j (c_str mem))" "last_occ [LF, LF] (c_str mem) k"
  shows "seabear_split mem = Some (LF_only, drop (k + 2) mem)"
proof -
  have 1: "scan_sep CRLF mem None = None"
    using assms(1) by (intro scan_sep_none) simp
  have "scan_sep LF_only mem None = Some (drop k mem)"
    using assms(2) by (intro scan_sep_last) simp
  with 1 show ?thesis by (simp add: seabear_split_def add.commute)
qed

text \<open>
  Claim C9. A buffer in which neither \<open>CR LF CR LF\<close> nor \<open>LF LF\<close> occurs makes
  \<open>parse_seabear_csv_file\<close> fail without a call of the engine, so no dive is appended. When
  \<open>CR LF CR LF\<close> occurs in the text of the buffer, the body is what follows its last
  occurrence; only when it occurs nowhere the body is what follows the last occurrence of
  \<open>LF LF\<close>. The text of the buffer is the buffer itself when it holds no NUL byte. A
  non-empty body is what is wrapped and handed to the engine.
\<close>

theorem seabear_separator:
  "((\<forall>j. \<not> prefix [CR, LF, CR, LF] (drop j mem)) \<and> (\<forall>j. \<not> prefix [LF, LF] (drop j mem)) \<longrightarrow>
      seabear_split mem = None \<and>
      parse_seabear_csv_file (Some mem) xml params curdate curtime csvtemplate =
        (Inl No_empty_lines, [])) \<and>
   (last_occ [CR, LF, CR, LF] (c_str mem) k \<longrightarrow>
      seabear_split mem = Some (CRLF, drop (k + 4) mem)) \<and>
   ((\<forall>j. \<not> prefix [CR, LF, CR, LF] (drop j (c_str mem))) \<and> last_occ [LF, LF] (c_str mem) k \<longrightarrow>
      seabear_split mem = Some (LF_only, drop (k + 2) mem)) \<and>
   (NUL \<notin> set mem \<longrightarrow> c_str mem = mem) \<and>
   (seabear_split mem = Some (NL, body) \<and> body \<noteq> [] \<and>
    seabear_header_date mem NL (params @ [(''date'', curdate), (''time'', curtime)]) = Inr params_h \<longrightarrow>
      parse_seabear_csv_file (Some mem) xml params curdate curtime csvtemplate =
        (Inr (xml (wrapped csvtemplate body) params_h), [(wrapped csvtemplate body, params_h)]))"
proof (intro conjI impI)
  assume a: "(\<forall>j. \<not> prefix [CR, LF, CR, LF] (drop j mem)) \<and> (\<forall>j. \<not> prefix [LF, LF] (drop j mem))"
  then show n: "seabear_split mem = None" by (intro seabear_split_none) simp_all
  show "parse_seabear_csv_file (Some mem) xml params curdate curtime csvtemplate =
        (Inl No_empty_lines, [])"
    by (simp add: parse_seabear_csv_file_def n)
next
  assume "last_occ [CR, LF, CR, LF] (c_str mem) k"
  then show "seabear_split mem = Some (CRLF, drop (k + 4) mem)" by (rule seabear_split_crlf)
next
  assume "(\<forall>j. \<not> prefix [CR, LF, CR, LF] (drop j (c_str mem))) \<and> last_occ [LF, LF] (c_str mem) k"
  then show "seabear_split mem = Some (LF_only, drop (k + 2) mem)"
    by (intro seabear_split_lf) simp_all
next
  assume "NUL \<notin> set mem"
  then show "c_str mem = mem" by (rule c_str_no_NUL)
next
  assume "seabear_split mem = Some (NL, body) \<and> body \<noteq> [] \<and>
    seabear_header_date mem NL (params @ [(''date'', curdate), (''time'', curtime)]) = Inr params_h"
  then show "parse_seabear_csv_file (Some mem) xml params curdate curtime csvtemplate =
        (Inr (xml (wrapped csvtemplate body) params_h), [(wrapped csvtemplate body, params_h)])"
    by (simp add: parse_seabear_csv_file_def xml_params_add_def try_to_xslt_open_csv_nonempty)
qed

definition seabear_example :: string where
  "seabear_example = ''Serial number:123'' @ [LF] @ ''  2020-01-02 03:04:05'' @ [LF, LF] @
     ''a,b'' @ [LF, LF] @ ''1,2&'' @ [LF]"

definition seabear_crlf_example :: string where
  "seabear_crlf_example = ''abc'' @ [LF, LF] @ ''def'' @ [CR, LF, CR, LF] @ ''x'' @ [LF, LF] @ ''y''"

lemma last_occ_code:
  assumes "sep \<noteq> []"
  shows "last_occ sep s k =
     (prefix sep (drop k s) \<and> list_all (\<lambda>j. \<not> prefix sep (drop j s)) [Suc k ..< length s])"
proof -
  have "\<not> prefix sep (drop j s)" if "length s \<le> j" for j
    using that assms by simp
  then have "(\<forall>j>k. \<not> prefix sep (drop j s)) = (\<forall>j\<in>set [Suc k ..< length s]. \<not> prefix sep (drop j s))"
    by (metis atLeastLessThan_iff set_upt Suc_leI not_le_imp_less Suc_le_lessD)
  then show ?thesis by (simp add: last_occ_def list_all_iff)
qed


lemma no_occ_code:
  assumes "sep \<noteq> []"
  shows "(\<forall>j. \<not> prefix sep (drop j s)) = list_all (\<lambda>j. \<not> prefix sep (drop j s)) [0 ..< length s]"
proof -
  have "\<not> prefix sep (drop j s)" if "length s \<le> j" for j
    using that assms by simp
  then have "(\<forall>j. \<not> prefix sep (drop j s)) = (\<forall>j\<in>set [0 ..< length s]. \<not> prefix sep (drop j s))"
    by (metis atLeastLessThan_iff set_upt not_le_imp_less zero_le)
  then show ?thesis by (simp add: list_all_iff)
qed

theorem seabear_separator_witness:
  "(\<forall>j. \<not> prefix [CR, LF, CR, LF] (drop j (''abc'' @ [LF] @ ''def''))) \<and>
   (\<forall>j. \<not> prefix [LF, LF] (drop j (''abc'' @ [LF] @ ''def''))) \<and>
   parse_seabear_csv_file (Some (''abc'' @ [LF] @ ''def'')) engine_ok [] ''20260101'' ''11200'' ''csv'' =
     (Inl No_empty_lines, []) \<and>
   last_occ [CR, LF, CR, LF] (c_str seabear_crlf_example) 8 \<and>
   seabear_split seabear_crlf_example = Some (CRLF, ''x'' @ [LF, LF] @ ''y'') \<and>
   (\<forall>j. \<not> prefix [CR, LF, CR, LF] (drop j (c_str seabear_example))) \<and>
   last_occ [LF, LF] (c_str seabear_example) 44 \<and>
   seabear_split seabear_example = Some (LF_only, ''1,2&'' @ [LF]) \<and>
   seabear_header_date seabear_example LF_only ([] @ [(''date'', ''20260101''), (''time'', ''11200'')]) =
     Inr [(''date'', ''20200102''), (''time'', ''10304'')] \<and>
   NUL \<notin> set seabear_example \<and>
   parse_seabear_csv_file (Some seabear_example) engine_ok [] ''20260101'' ''11200'' ''csv'' =
     (Inr 0, [(''<csv>1,2&amp;'' @ [LF] @ ''</csv>'', [(''date'', ''20200102''), (''time'', ''10304'')])])"
proof -
  have a1: "\<forall>j. \<not> prefix [CR, LF, CR, LF] (drop j (''abc'' @ [LF] @ ''def''))"
    unfolding no_occ_code [of "[CR, LF, CR, LF]", simplified] by code_simp
  have a2: "\<forall>j. \<not> prefix [LF, LF] (drop j (''abc'' @ [LF] @ ''def''))"
    unfolding no_occ_code [of "[LF, LF]", simplified] by code_simp
  have b1: "last_occ [CR, LF, CR, LF] (c_str seabear_crlf_example) 8"
    unfolding last_occ_code [of "[CR, LF, CR, LF]", simplified] by code_simp
  have b2: "drop (8 + 4) seabear_crlf_example = ''x'' @ [LF, LF] @ ''y''" by code_simp
  have c1: "\<forall>j. \<not> prefix [CR, LF, CR, LF] (drop j (c_str seabear_example))"
    unfolding no_occ_code [of "[CR, LF, CR, LF]", simplified] by code_simp
  have c2: "last_occ [LF, LF] (c_str seabear_example) 44"
    unfolding last_occ_code [of "[LF, LF]", simplified] by code_simp
  have c3: "drop (44 + 2) seabear_example = ''1,2&'' @ [LF]" by code_simp
  have c4: "seabear_header_date seabear_example LF_only ([] @ [(''date'', ''20260101''), (''time'', ''11200'')]) =
     Inr [(''date'', ''20200102''), (''time'', ''10304'')]" by code_simp
  have c5: "NUL \<notin> set seabear_example" by code_simp
  have c6: "''1,2&'' @ [LF] \<noteq> []" by simp
  have w: "wrapped ''csv'' (''1,2&'' @ [LF]) = ''<csv>1,2&amp;'' @ [LF] @ ''</csv>''" by code_simp
  have e: "engine_ok (''<csv>1,2&amp;'' @ [LF] @ ''</csv>'') [(''date'', ''20200102''), (''time'', ''10304'')] = 0"
    by (simp add: engine_ok_def)
  note A = seabear_separator [where mem = "''abc'' @ [LF] @ ''def''" and xml = engine_ok
      and params = "[]" and curdate = "''20260101''" and curtime = "''11200''" and csvtemplate = "''csv''"]
  note B = seabear_separator [where mem = seabear_crlf_example and k = 8]
  note C = seabear_separator [where mem = seabear_example and k = 44 and xml = engine_ok
      and params = "[]" and curdate = "''20260101''" and curtime = "''11200''" and csvtemplate = "''csv''"
      and NL = LF_only and body = "''1,2&'' @ [LF]"
      and params_h = "[(''date'', ''20200102''), (''time'', ''10304'')]"]
  have 1: "parse_seabear_csv_file (Some (''abc'' @ [LF] @ ''def'')) engine_ok [] ''20260101'' ''11200'' ''csv'' =
     (Inl No_empty_lines, [])"
    by (rule A [THEN conjunct1, THEN mp, OF conjI [OF a1 a2], THEN conjunct2])
  have "seabear_split seabear_crlf_example = Some (CRLF, drop (8 + 4) seabear_crlf_example)"
    by (rule B [THEN conjunct2, THEN conjunct1, THEN mp, OF b1])
  then have 2: "seabear_split seabear_crlf_example = Some (CRLF, ''x'' @ [LF, LF] @ ''y'')"
    by (simp only: b2)
  have "seabear_split seabear_example = Some (LF_only, drop (44 + 2) seabear_example)"
    by (rule C [THEN conjunct2, THEN conjunct2, THEN conjunct1, THEN mp, OF conjI [OF c1 c2]])
  then have 3: "seabear_split seabear_example = Some (LF_only, ''1,2&'' @ [LF])"
    by (simp only: c3)
  have "parse_seabear_csv_file (Some seabear_example) engine_ok [] ''20260101'' ''11200'' ''csv'' =
        (Inr (engine_ok (wrapped ''csv'' (''1,2&'' @ [LF])) [(''date'', ''20200102''), (''time'', ''10304'')]),
         [(wrapped ''csv'' (''1,2&'' @ [LF]), [(''date'', ''20200102''), (''time'', ''10304'')])])"
    by (rule C [THEN conjunct2, THEN conjunct2, THEN conjunct2, THEN conjunct2, THEN mp,
          OF conjI [OF 3 conjI [OF c6 c4]]])
  then have 4: "parse_seabear_csv_file (Some seabear_example) engine_ok [] ''20260101'' ''11200'' ''csv'' =
     (Inr 0, [(''<csv>1,2&amp;'' @ [LF] @ ''</csv>'', [(''date'', ''20200102''), (''time'', ''10304'')])])"
    by (simp only: w e)
  from a1 a2 1 b1 2 c1 c2 3 c4 c5 4 show ?thesis by (intro conjI)
qed

section \<open>The paired header and sample (Poseidon MkVI) decoder\<close>




































section \<open>Properties of the Poseidon sample loop\<close>
















































section \<open>The generic CSV decoder\<close>





















section \<open>Properties of the generic CSV decoder\<close>



















end
